theory Spec2Isabelle
  imports Main
begin

section \<open>The receiver queue (alsa\_receiver\_queue.cpp)\<close>

subsection \<open>Data model\<close>

text \<open>
  A \<open>TimePoint\<close> is a reading of the system clock, counted in clock ticks. The clock
  type itself (sys\_clock.h) is not among the sources; readings are unbounded integers
  here, no claim depends on the width of the tick counter.
\<close>

type_synonym TimePoint = int

text \<open>\<open>enum class State\<close> of alsa\_receiver\_queue.h.\<close>

datatype State = stopped | running

text \<open>
  The exceptions that a listener can store in its future: \<open>InterruptedException\<close>
  (the regular end of a listener) and the \<open>std::runtime_error\<close> thrown by
  \<open>checkAlsa\<close> and by \<open>startInternal\<close>, with its message.
\<close>

datatype error = InterruptedException | runtime_error string

text \<open>
  \<open>FutureAlsaEvents\<close> is a \<open>std::future\<close> of an \<open>AlsaEventPtr\<close>. What the code can observe
  of such a future is one of four things:
  \<^item> \<open>Invalid\<close>: default constructed or moved from, \<open>valid()\<close> is false;
  \<^item> \<open>Waiting\<close>: the asynchronous task \<open>listenForEvents\<close> has not returned yet;
  \<^item> \<open>Failed\<close>: the task ended on an exception, which \<open>get()\<close> throws again;
  \<^item> \<open>Ready\<close>: the task returned an \<open>AlsaEventBatch\<close>.

  A waiting future belongs to a live listener thread. The thread is either inside its
  polling loop (\<open>Polling\<close>), or it has left the loop with a non-empty event list and
  has already launched its successor with \<open>startNextFuture\<close>, but has not yet
  constructed its batch (\<open>Packing\<close>, between lines 327 and 330 of the source): the
  successor's future is then held in the local variable \<open>nextFuture\<close>.

  An \<open>AlsaEventBatch\<close> has the three private members \<open>_next\<close>, \<open>_eventList\<close>
  and \<open>_timeStamp\<close>; the selectors are named after the public accessors.
\<close>

datatype 'e FutureAlsaEvents =
    Invalid
  | Waiting "'e Listener"
  | Failed error
  | Ready "'e AlsaEventBatch"
and 'e Listener =
    Polling
  | Packing "'e list" "'e FutureAlsaEvents"
and 'e AlsaEventBatch =
    AlsaEventBatch (grabNext: "'e FutureAlsaEvents") (getEventList: "'e list")
      (getTimeStamp: TimePoint)

text \<open>
  The globals of the module: \<open>carryOnFlag\<close>, \<open>stateFlag\<close>,
  \<open>currentEventBatchCount\<close> and \<open>queueHead\<close>. (The mutex serialises \<open>start\<close>,
  \<open>stop\<close>, \<open>process\<close>, \<open>hasResult\<close> and \<open>getState\<close>; each of them is one
  atomic transition of the model.)
\<close>

record 'e Queue =
  carryOnFlag :: bool
  stateFlag :: State
  currentEventBatchCount :: int
  queueHead :: "'e FutureAlsaEvents"

definition initialQueue :: "'e Queue" where
  "initialQueue =
     \<lparr>carryOnFlag = False, stateFlag = stopped, currentEventBatchCount = 0,
      queueHead = Invalid\<rparr>"

text \<open>
  The closure passed to \<open>process\<close> is a \<open>std::function\<close> returning \<open>void\<close>: all it
  does is an effect on the caller's data. It is modelled as a transformer of a caller
  state \<open>'u\<close>, so that the order and number of its invocations can be read off the
  final caller state. The closure itself is taken not to throw.
\<close>

type_synonym ('e, 'u) processCallback = "'e \<Rightarrow> TimePoint \<Rightarrow> 'u \<Rightarrow> 'u"

text \<open>
  \<open>process\<close> and \<open>stop\<close> are declared \<open>noexcept\<close>: an exception that leaves them
  ends the program through \<open>std::terminate\<close>.
\<close>

datatype 'a noexcept = Returned 'a | Terminated error

subsection \<open>Reading a future\<close>

fun valid :: "'e FutureAlsaEvents \<Rightarrow> bool" where
  "valid Invalid = False"
| "valid (Waiting l) = True"
| "valid (Failed e) = True"
| "valid (Ready b) = True"

text \<open>\<open>isReady\<close>, lines 182 to 190.\<close>

fun isReady :: "'e FutureAlsaEvents \<Rightarrow> bool" where
  "isReady Invalid = False"
| "isReady (Waiting l) = False"
| "isReady (Failed e) = True"
| "isReady (Ready b) = True"

subsection \<open>Construction and destruction of batches\<close>

text \<open>
  The constructor of \<open>AlsaEventBatch\<close> increments \<open>currentEventBatchCount\<close>, the
  destructor decrements it. Releasing a future (by destruction or by move assignment
  over it) destroys what its shared state owns:
  \<^item> a batch that is stored in it (the destructor body runs, then the member
    \<open>_next\<close> is released in turn);
  \<^item> for the future of a still running \<open>std::async\<close> task, the release blocks until
    the task has ended and then destroys its result. A polling listener ends on
    \<open>InterruptedException\<close> (the release happens in \<open>stopInternal\<close>, after
    \<open>carryOnFlag\<close> was cleared) and has constructed nothing; a packing listener
    still constructs its batch (line 330), which is destroyed at once.

  \<open>release f c\<close> is the value of the counter after releasing \<open>f\<close> at counter \<open>c\<close>.
\<close>

fun release :: "'e FutureAlsaEvents \<Rightarrow> int \<Rightarrow> int" where
  "release Invalid c = c"
| "release (Waiting Polling) c = c"
| "release (Waiting (Packing events nextFuture)) c = release nextFuture ((c + 1) - 1)"
| "release (Failed e) c = c"
| "release (Ready (AlsaEventBatch nxt events timeStamp)) c = release nxt (c - 1)"

text \<open>
  The release of a chain is recursive in the code: the destructor of a batch destroys
  its member \<open>_next\<close>, whose shared state owns the next batch, whose destructor
  runs inside the first one, and so on; nothing unlinks the chain in a loop.
  \<open>destructorDepth f\<close> is the number of batch destructors that are active at the same
  time, each inside the one before, when \<open>f\<close> is released.
\<close>

fun destructorDepth :: "'e FutureAlsaEvents \<Rightarrow> nat" where
  "destructorDepth Invalid = 0"
| "destructorDepth (Waiting Polling) = 0"
| "destructorDepth (Waiting (Packing events nextFuture)) = Suc (destructorDepth nextFuture)"
| "destructorDepth (Failed e) = 0"
| "destructorDepth (Ready (AlsaEventBatch nxt events timeStamp)) = Suc (destructorDepth nxt)"

subsection \<open>\<open>process\<close>\<close>

text \<open>\<open>invokeClosureForeachEvent\<close>, lines 170 to 175: the range-for over the list.\<close>

primrec invokeClosureForeachEvent ::
  "'e list \<Rightarrow> TimePoint \<Rightarrow> ('e, 'u) processCallback \<Rightarrow> 'u \<Rightarrow> 'u" where
  "invokeClosureForeachEvent [] current closure u = u"
| "invokeClosureForeachEvent (event # rest) current closure u =
     invokeClosureForeachEvent rest current closure (closure event current u)"

text \<open>
  \<open>processInternal\<close>, lines 192 to 217. The arguments are the head of the queue, the
  deadline, the closure, and the pair of the batch counter and the caller state; the
  result is either the exception that leaves the function or the new head, with the
  counter and the caller state.

  The state of a future in the chain is the one that \<open>isReady\<close> finds when the loop
  tests it; each future is tested once. One equation per state of the head at the loop
  test (\<open>get()\<close> yields the batch of a ready future or throws its stored exception,
  and leaves the future invalid):
  \<^item> a ready batch beyond the deadline is moved into a new promise whose future is
    returned (ready, with the same batch);
  \<^item> a ready batch within the deadline is passed to the closure, the head becomes the
    batch's \<open>_next\<close>, and the batch is destroyed at the end of the \<open>try\<close> block (its
    \<open>_next\<close> has been moved out, so only the counter changes);
  \<^item> \<open>get()\<close> throwing \<open>InterruptedException\<close> is caught and leaves the loop with
    the head invalid, as \<open>get()\<close> has released its state;
  \<^item> any other exception is not caught by the handler and leaves the function;
  \<^item> a head that is not ready ends the loop.
\<close>

fun processInternal ::
  "'e FutureAlsaEvents \<Rightarrow> TimePoint \<Rightarrow> ('e, 'u) processCallback \<Rightarrow> int \<times> 'u \<Rightarrow>
     (error + 'e FutureAlsaEvents) \<times> int \<times> 'u" where
  "processInternal (Ready (AlsaEventBatch nxt events timestamp)) deadline closure (cnt, u) =
     (if timestamp > deadline
      then (Inr (Ready (AlsaEventBatch nxt events timestamp)), cnt, u)
      else processInternal nxt deadline closure
             (cnt - 1, invokeClosureForeachEvent events timestamp closure u))"
| "processInternal (Failed e) deadline closure (cnt, u) =
     (if e = InterruptedException then (Inr Invalid, cnt, u) else (Inl e, cnt, u))"
| "processInternal (Waiting l) deadline closure (cnt, u) = (Inr (Waiting l), cnt, u)"
| "processInternal Invalid deadline closure (cnt, u) = (Inr Invalid, cnt, u)"

text \<open>
  \<open>process\<close>, lines 230 to 235. The function is \<open>noexcept\<close>: an exception leaving
  \<open>processInternal\<close> terminates the program.
\<close>

definition process ::
  "TimePoint \<Rightarrow> ('e, 'u) processCallback \<Rightarrow> 'e Queue \<times> 'u \<Rightarrow> ('e Queue \<times> 'u) noexcept" where
  "process deadline closure qu =
     (case qu of (q, u) \<Rightarrow>
        if valid (queueHead q) then
          (case processInternal (queueHead q) deadline closure (currentEventBatchCount q, u) of
             (Inl e, cnt, u') \<Rightarrow> Terminated e
           | (Inr head, cnt, u') \<Rightarrow>
               Returned (q\<lparr>queueHead := head, currentEventBatchCount := cnt\<rparr>, u'))
        else Returned (q, u))"

text \<open>\<open>getCurrentEventBatchCount\<close>, \<open>getState\<close> and \<open>hasResult\<close>.\<close>

definition getCurrentEventBatchCount :: "'e Queue \<Rightarrow> int" where
  "getCurrentEventBatchCount q = currentEventBatchCount q"

definition getState :: "'e Queue \<Rightarrow> State" where
  "getState q = stateFlag q"

definition hasResult :: "'e Queue \<Rightarrow> bool" where
  "hasResult q = isReady (queueHead q)"

subsection \<open>\<open>stop\<close> and \<open>start\<close>\<close>

text \<open>
  \<open>stopInternal\<close>, lines 239 to 250: clear the flag, sleep, move an empty future over
  the head (which releases the whole chain), set the state.
\<close>

definition stopInternal :: "'e Queue \<Rightarrow> 'e Queue" where
  "stopInternal q =
     (let q1 = q\<lparr>carryOnFlag := False\<rparr>;
          q2 = q1\<lparr>currentEventBatchCount := release (queueHead q1) (currentEventBatchCount q1),
                  queueHead := Invalid\<rparr>
      in q2\<lparr>stateFlag := stopped\<rparr>)"

definition stop :: "'e Queue \<Rightarrow> 'e Queue" where
  "stop q = stopInternal q"

text \<open>
  \<open>stop\<close> above is the state that \<open>stop()\<close> leaves when the release of the chain
  runs to its end. The release nests one batch destructor per batch of the chain on the
  stack of the calling thread, and that stack is bounded. The bound is not in the
  sources and is a parameter: \<open>stackDepth\<close> is the number of nested batch destructors
  that the stack can hold. Beyond it the call does not return, the program ends on a
  stack overflow.
\<close>

datatype 'a onStack = Completed 'a | StackOverflow

definition stopOnStack :: "nat \<Rightarrow> 'e Queue \<Rightarrow> 'e Queue onStack" where
  "stopOnStack stackDepth q =
     (if destructorDepth (queueHead q) \<le> stackDepth then Completed (stop q)
      else StackOverflow)"

text \<open>\<open>startNextFuture\<close>, lines 346 to 350: a new listener thread, in its loop.\<close>

definition startNextFuture :: "'e FutureAlsaEvents" where
  "startNextFuture = Waiting Polling"

text \<open>
  \<open>startInternal\<close>, lines 361 to 371, and \<open>start\<close>, lines 377 to 380. The result of
  \<open>start\<close> is the exception it throws, if any, and the queue. The move assignment in
  \<open>start\<close> releases the former head, as every move assignment does; it is not
  reached when \<open>startInternal\<close> throws.
\<close>

definition startInternal :: "'e Queue \<Rightarrow> (error + 'e FutureAlsaEvents) \<times> 'e Queue" where
  "startInternal q =
     (if stateFlag q = running
      then (Inl (runtime_error ''Cannot start the alsaReceiverQueue, it is already running.''),
            stopInternal q)
      else (Inr startNextFuture, q\<lparr>carryOnFlag := True, stateFlag := running\<rparr>))"

definition start :: "'e Queue \<Rightarrow> error option \<times> 'e Queue" where
  "start q =
     (case startInternal q of
        (Inl e, q') \<Rightarrow> (Some e, q')
      | (Inr future, q') \<Rightarrow>
          (None, q'\<lparr>currentEventBatchCount := release (queueHead q') (currentEventBatchCount q'),
                    queueHead := future\<rparr>))"

subsection \<open>Reading a chain\<close>

text \<open>
  The queue is the chain of futures that starts at the head: a ready batch holds the
  future of its successor. \<open>batches\<close> lists the ready batches from the head on, in
  chain order, up to the first future that holds no batch; \<open>chainEnd\<close> is that future.
\<close>

fun batches :: "'e FutureAlsaEvents \<Rightarrow> 'e AlsaEventBatch list" where
  "batches (Ready (AlsaEventBatch nxt events timestamp)) =
     AlsaEventBatch nxt events timestamp # batches nxt"
| "batches (Failed e) = []"
| "batches (Waiting l) = []"
| "batches Invalid = []"

fun chainEnd :: "'e FutureAlsaEvents \<Rightarrow> 'e FutureAlsaEvents" where
  "chainEnd (Ready (AlsaEventBatch nxt events timestamp)) = chainEnd nxt"
| "chainEnd (Failed e) = Failed e"
| "chainEnd (Waiting l) = Waiting l"
| "chainEnd Invalid = Invalid"

text \<open>A future holds a fatal error when its exception is not \<open>InterruptedException\<close>.\<close>

fun fatal :: "'e FutureAlsaEvents \<Rightarrow> bool" where
  "fatal (Failed e) = (e \<noteq> InterruptedException)"
| "fatal (Ready b) = False"
| "fatal (Waiting l) = False"
| "fatal Invalid = False"

text \<open>
  The batches due at a deadline are the longest prefix of the chain with time stamps
  up to the deadline; the others are kept.
\<close>

definition dueBatches :: "TimePoint \<Rightarrow> 'e FutureAlsaEvents \<Rightarrow> 'e AlsaEventBatch list" where
  "dueBatches deadline head = takeWhile (\<lambda>b. getTimeStamp b \<le> deadline) (batches head)"

definition keptBatches :: "TimePoint \<Rightarrow> 'e FutureAlsaEvents \<Rightarrow> 'e AlsaEventBatch list" where
  "keptBatches deadline head = dropWhile (\<lambda>b. getTimeStamp b \<le> deadline) (batches head)"

text \<open>
  What \<open>processInternal\<close> is expected to leave, read off the chain: the first kept
  batch as a ready future, or else what the end of the chain gives.
\<close>

definition headAfter :: "TimePoint \<Rightarrow> 'e FutureAlsaEvents \<Rightarrow> error + 'e FutureAlsaEvents" where
  "headAfter deadline head =
     (case keptBatches deadline head of
        b # bs \<Rightarrow> Inr (Ready b)
      | [] \<Rightarrow> (case chainEnd head of
                 Failed e \<Rightarrow> if e = InterruptedException then Inr Invalid else Inl e
               | Waiting l \<Rightarrow> Inr (Waiting l)
               | Invalid \<Rightarrow> Inr Invalid
               | Ready b \<Rightarrow> Inr (Ready b)))"

text \<open>
  The invocations of the closure that a batch stands for, one per event, in the order
  of its event list, and the effect of a sequence of invocations on the caller state.
\<close>

definition calls :: "'e AlsaEventBatch \<Rightarrow> ('e \<times> TimePoint) list" where
  "calls b = map (\<lambda>event. (event, getTimeStamp b)) (getEventList b)"

definition invokeAll :: "('e, 'u) processCallback \<Rightarrow> 'u \<Rightarrow> ('e \<times> TimePoint) list \<Rightarrow> 'u" where
  "invokeAll closure u cs = foldl (\<lambda>u (event, t). closure event t u) u cs"

text \<open>Two closures: one that records its invocations, one that does nothing.\<close>

definition logCall :: "('e, ('e \<times> TimePoint) list) processCallback" where
  "logCall event t log = log @ [(event, t)]"

definition noCallback :: "('e, unit) processCallback" where
  "noCallback event t u = u"

text \<open>The number of batch objects that a future owns, directly or through its chain.\<close>

fun batchCount :: "'e FutureAlsaEvents \<Rightarrow> nat" where
  "batchCount Invalid = 0"
| "batchCount (Waiting Polling) = 0"
| "batchCount (Waiting (Packing events nextFuture)) = batchCount nextFuture"
| "batchCount (Failed e) = 0"
| "batchCount (Ready (AlsaEventBatch nxt events timeStamp)) = Suc (batchCount nxt)"

subsection \<open>The listener\<close>

text \<open>
  The ALSA sequencer is outside the repository. A sequencer handle is modelled by the
  replies that the successive calls of \<open>snd_seq_event_input\<close> give: the status and
  the event pointer (null is \<open>None\<close>). When the replies are used up the sequencer
  answers \<open>-EAGAIN\<close> with a null pointer.
\<close>

definition EAGAIN :: int where
  "EAGAIN = 11"

type_synonym 'e snd_seq = "(int \<times> 'e option) list"

text \<open>\<open>checkAlsa\<close>, lines 84 to 89.\<close>

definition checkAlsa :: "int \<Rightarrow> error + unit" where
  "checkAlsa alsaResult =
     (if alsaResult < 0 then Inl (runtime_error ''ALSA problem'') else Inr ())"

text \<open>
  \<open>retrieveEvents\<close>, lines 274 to 294. \<open>retrieveBody\<close> is the body of the
  \<open>do\<close> loop after the call of \<open>snd_seq_event_input\<close>: the \<open>switch\<close> and the
  \<open>push_front\<close>; \<open>retrieveLoop\<close> is the loop, which goes on while the status is
  positive.
\<close>

definition retrieveBody :: "int \<Rightarrow> 'e option \<Rightarrow> 'e list \<Rightarrow> error + 'e list" where
  "retrieveBody sequencerStatus eventPtr eventList =
     (case (if sequencerStatus = - EAGAIN then Inr () else checkAlsa sequencerStatus) of
        Inl e \<Rightarrow> Inl e
      | Inr _ \<Rightarrow>
          Inr (case eventPtr of Some event \<Rightarrow> event # eventList | None \<Rightarrow> eventList))"

fun retrieveLoop :: "'e snd_seq \<Rightarrow> 'e list \<Rightarrow> error + 'e list" where
  "retrieveLoop [] eventList = retrieveBody (- EAGAIN) None eventList"
| "retrieveLoop ((sequencerStatus, eventPtr) # rest) eventList =
     (case retrieveBody sequencerStatus eventPtr eventList of
        Inl e \<Rightarrow> Inl e
      | Inr eventList' \<Rightarrow>
          if sequencerStatus > 0 then retrieveLoop rest eventList' else Inr eventList')"

definition retrieveEvents :: "'e snd_seq \<Rightarrow> error + 'e list" where
  "retrieveEvents hSequencer = retrieveLoop hSequencer []"

text \<open>
  The replies of a sequencer whose FIFO holds the given events, oldest first: each call
  hands out the oldest event, its status tells how much is left.
\<close>

primrec fifoReplies :: "'e list \<Rightarrow> 'e snd_seq" where
  "fifoReplies [] = []"
| "fifoReplies (event # rest) = (int (length rest), Some event) # fifoReplies rest"

text \<open>
  \<open>listenForEvents\<close>, lines 309 to 340. What one round of the \<open>while\<close> loop reads from
  outside: the flag at the loop test, the result of \<open>snd_seq_poll_descriptors\<close>, the
  result of \<open>poll\<close>, the flag at the second test, and the sequencer.
\<close>

record 'e PollRound =
  carryOn1 :: bool
  descriptorsResult :: int
  hasEvents :: int
  carryOn2 :: bool
  sequencer :: "'e snd_seq"

datatype 'e Listened = StillPolling | Thrown error | Retrieved "'e list"

fun listenLoop :: "'e PollRound list \<Rightarrow> 'e Listened" where
  "listenLoop [] = StillPolling"
| "listenLoop (r # rounds) =
     (if \<not> carryOn1 r then Thrown InterruptedException
      else case checkAlsa (descriptorsResult r) of
        Inl e \<Rightarrow> Thrown e
      | Inr _ \<Rightarrow>
          if hasEvents r > 0 \<and> carryOn2 r then
            (case retrieveEvents (sequencer r) of
               Inl e \<Rightarrow> Thrown e
             | Inr events \<Rightarrow> if events \<noteq> [] then Retrieved events else listenLoop rounds)
          else listenLoop rounds)"

text \<open>
  The state of a listener's future after the listener has gone through the given
  rounds, up to and including line 327, where it launches its successor.
\<close>

definition listenForEvents :: "int \<Rightarrow> 'e PollRound list \<Rightarrow> 'e FutureAlsaEvents" where
  "listenForEvents fdsCount rounds =
     (case checkAlsa fdsCount of
        Inl e \<Rightarrow> Failed e
      | Inr _ \<Rightarrow>
          (case listenLoop rounds of
             StillPolling \<Rightarrow> Waiting Polling
           | Thrown e \<Rightarrow> Failed e
           | Retrieved events \<Rightarrow> Waiting (Packing events startNextFuture)))"

text \<open>
  The steps of the listener threads, at the current value of \<open>carryOnFlag\<close> and of the
  clock, on a future and the batch counter:
  \<^item> \<open>listen\<close>: a polling listener runs some rounds of its loop;
  \<^item> \<open>pack\<close>: a listener that has launched its successor reads the clock, constructs
    its batch (the constructor increments the counter) and returns it, lines 330 to 334;
  \<^item> \<open>inNextFuture\<close>, \<open>inBatch\<close>: the step is taken by a listener further down the
    chain, the successor of a packing listener being already live.
\<close>

inductive listenerStep ::
  "bool \<Rightarrow> TimePoint \<Rightarrow> 'e FutureAlsaEvents \<Rightarrow> int \<Rightarrow> 'e FutureAlsaEvents \<Rightarrow> int \<Rightarrow> bool"
  for flag :: bool and now :: TimePoint where
  listen: "\<forall>r \<in> set rounds. carryOn1 r = flag \<and> carryOn2 r = flag \<Longrightarrow>
      listenerStep flag now (Waiting Polling) c (listenForEvents fdsCount rounds) c"
| pack: "listenerStep flag now (Waiting (Packing events nextFuture)) c
      (Ready (AlsaEventBatch nextFuture events now)) (c + 1)"
| inNextFuture: "listenerStep flag now f c f' c' \<Longrightarrow>
      listenerStep flag now (Waiting (Packing events f)) c (Waiting (Packing events f')) c'"
| inBatch: "listenerStep flag now f c f' c' \<Longrightarrow>
      listenerStep flag now (Ready (AlsaEventBatch f events timeStamp)) c
        (Ready (AlsaEventBatch f' events timeStamp)) c'"

text \<open>
  The states of the module that a program can reach, with the reading of the monotonic
  clock: from the initial values of the globals, by the passing of time, by calls of
  \<open>start\<close>, \<open>stop\<close> and \<open>process\<close> (what \<open>process\<close> does to the queue does not
  depend on the closure), and by steps of the listeners.
\<close>

inductive reachable :: "'e Queue \<Rightarrow> TimePoint \<Rightarrow> bool" where
  initially: "reachable initialQueue t"
| tick: "reachable q t \<Longrightarrow> t \<le> t' \<Longrightarrow> reachable q t'"
| starting: "reachable q t \<Longrightarrow> reachable (snd (start q)) t"
| stopping: "reachable q t \<Longrightarrow> reachable (stop q) t"
| processing: "reachable q t \<Longrightarrow> process deadline noCallback (q, ()) = Returned (q', ()) \<Longrightarrow>
      reachable q' t"
| listening: "reachable q t \<Longrightarrow>
      listenerStep (carryOnFlag q) t (queueHead q) (currentEventBatchCount q) f c \<Longrightarrow>
      reachable (q\<lparr>queueHead := f, currentEventBatchCount := c\<rparr>) t"

definition queueInvariant :: "'e Queue \<Rightarrow> bool" where
  "queueInvariant q =
     (currentEventBatchCount q = int (batchCount (queueHead q))
      \<and> (stateFlag q = stopped \<longrightarrow> queueHead q = Invalid))"

section \<open>The cycle scheduler (jack\_client.cpp)\<close>

text \<open>
  Durations are counted in \<open>sysClock::SysTimeUnits\<close>, the ticks of the system clock.

  Modelled from the spec: the unit of \<open>sysClock::SysTimeUnits\<close>, whose declaration
  (sys\_clock.h) is not among the sources. The spec gives the nanosecond as the unit of
  a time stamp, so that the 500 microseconds of \<open>JITTER_COMPENSATION\<close> (line 112) are
  500000 ticks. The theorems below use of this value only that it is positive.
\<close>

type_synonym SysTimeUnits = int

definition JITTER_COMPENSATION :: SysTimeUnits where
  "JITTER_COMPENSATION = 500 * 1000"

text \<open>
  The global timing variables, lines 103 to 117. (\<open>g_resetTimingCount\<close> is an
  \<open>int\<close>; it is not bounded here, no claim is about two thousand million resets.)
\<close>

record Timing =
  g_cycleLength :: SysTimeUnits
  g_previousDeadline :: TimePoint
  g_resetTimingCount :: int

text \<open>\<open>invalidateTiming\<close>, lines 131 to 135.\<close>

definition invalidateTiming :: "Timing \<Rightarrow> Timing" where
  "invalidateTiming st =
     st\<lparr>g_cycleLength := 0, g_previousDeadline := 0, g_resetTimingCount := 0\<rparr>"

text \<open>
  What the JACK server answers during one call of \<open>resetTiming\<close>: the result of
  \<open>jack_get_cycle_times\<close>, the period it reports, already converted by
  \<open>sysClock::toSysTimeUnits\<close> (the conversion from \<open>float\<close> is outside the sources),
  and the result of \<open>jack_frames_since_cycle_start\<close>.
\<close>

record CycleTimes =
  err :: int
  periodSysTimeUnits :: SysTimeUnits
  framesSinceCycleStart :: nat

text \<open>
  The readings of \<open>sysClock::now()\<close> that one call of \<open>newDeadline\<close> can take: the
  two in \<open>isPlausible\<close> (lines 180 and 186) and the one in \<open>resetTiming\<close> (line 160
  or line 168).
\<close>

record ClockReadings =
  now1 :: TimePoint
  now2 :: TimePoint
  now3 :: TimePoint

text \<open>
  \<open>resetTiming\<close>, lines 150 to 172. \<open>frames2duration\<close> is declared outside the
  sources and is a parameter.
\<close>

definition resetTiming ::
  "(nat \<Rightarrow> SysTimeUnits) \<Rightarrow> CycleTimes \<Rightarrow> TimePoint \<Rightarrow> Timing \<Rightarrow> TimePoint \<times> Timing" where
  "resetTiming frames2duration jack now st =
     (let st1 = st\<lparr>g_resetTimingCount := g_resetTimingCount st + 1\<rparr>
      in if err jack \<noteq> 0 then (now, st1)
         else
           let st2 = st1\<lparr>g_cycleLength := periodSysTimeUnits jack\<rparr>;
               newDeadline = now - frames2duration (framesSinceCycleStart jack)
                               - JITTER_COMPENSATION
           in (newDeadline, st2\<lparr>g_previousDeadline := newDeadline\<rparr>))"

text \<open>\<open>isPlausible\<close>, lines 179 to 193, with its two readings of the clock.\<close>

definition isPlausible :: "TimePoint \<Rightarrow> TimePoint \<Rightarrow> Timing \<Rightarrow> TimePoint \<Rightarrow> bool" where
  "isPlausible nowLatest nowEarliest st deadline =
     (let latestPossible = nowLatest
      in if deadline \<ge> latestPossible then False
         else
           let earliestPossible = nowEarliest - g_cycleLength st - JITTER_COMPENSATION
           in if deadline < earliestPossible then False else True)"

text \<open>\<open>newDeadline\<close>, lines 207 to 219.\<close>

definition newDeadline ::
  "(nat \<Rightarrow> SysTimeUnits) \<Rightarrow> CycleTimes \<Rightarrow> ClockReadings \<Rightarrow> Timing \<Rightarrow> TimePoint \<times> Timing" where
  "newDeadline frames2duration jack clock st =
     (let tentativeDeadline = g_previousDeadline st + g_cycleLength st
      in if isPlausible (now1 clock) (now2 clock) st tentativeDeadline
         then (tentativeDeadline, st\<lparr>g_previousDeadline := tentativeDeadline\<rparr>)
         else resetTiming frames2duration jack (now3 clock) st)"






section \<open>Example states\<close>

text \<open>
  Concrete inputs on which the theorems below are evaluated. Events are numbers (MIDI
  note numbers, say). \<open>exampleRound\<close> is a round of the listener loop in which
  \<open>poll\<close> reports input and the FIFO of the sequencer holds the given events;
  in \<open>failingRound\<close> the sequencer answers \<open>snd_seq_event_input\<close> with the hard
  error -19.
\<close>

definition exampleRound :: "'e list \<Rightarrow> 'e PollRound" where
  "exampleRound fifo =
     \<lparr>carryOn1 = True, descriptorsResult = 1, hasEvents = 1, carryOn2 = True,
      sequencer = fifoReplies fifo\<rparr>"

definition failingRound :: "'e PollRound" where
  "failingRound =
     \<lparr>carryOn1 = True, descriptorsResult = 1, hasEvents = 1, carryOn2 = True,
      sequencer = [(- 19, None)]\<rparr>"

text \<open>
  A running queue with two batches: the events 60 and 64 (retrieved in that order from
  the sequencer) stamped 10, and the event 62 stamped 20; the listener at the end of
  the chain is polling.
\<close>

definition exampleQueue :: "nat Queue" where
  "exampleQueue =
     \<lparr>carryOnFlag = True, stateFlag = running, currentEventBatchCount = 2,
      queueHead = Ready (AlsaEventBatch
        (Ready (AlsaEventBatch (Waiting Polling) [62] 20)) [64, 60] 10)\<rparr>"

text \<open>
  A running queue in which the listener of the first batch read the clock (at 2) after
  its successor had already retrieved the event 62 and read the clock (at 1).
\<close>

definition racedQueue :: "nat Queue" where
  "racedQueue =
     \<lparr>carryOnFlag = True, stateFlag = running, currentEventBatchCount = 2,
      queueHead = Ready (AlsaEventBatch
        (Ready (AlsaEventBatch (Waiting Polling) [62] 1)) [60] 2)\<rparr>"

text \<open>
  Two running queues whose listener ended on the exception of \<open>checkAlsa\<close>: at once,
  and after it had delivered one batch stamped 10.
\<close>

definition fatalQueue :: "nat Queue" where
  "fatalQueue =
     \<lparr>carryOnFlag = True, stateFlag = running, currentEventBatchCount = 0,
      queueHead = Failed (runtime_error ''ALSA problem'')\<rparr>"

definition lateFatalQueue :: "nat Queue" where
  "lateFatalQueue =
     \<lparr>carryOnFlag = True, stateFlag = running, currentEventBatchCount = 1,
      queueHead =
        Ready (AlsaEventBatch (Failed (runtime_error ''ALSA problem'')) [64, 60] 10)\<rparr>"

text \<open>
  A running queue whose listeners have delivered \<open>n\<close> batches, one per clock tick
  from 0 on, none of which has been processed; \<open>chainEnding t n tail\<close> is a chain of
  \<open>n\<close> such batches, the first stamped \<open>t\<close>, in front of the future \<open>tail\<close>.
\<close>

primrec chainEnding ::
  "TimePoint \<Rightarrow> nat \<Rightarrow> nat FutureAlsaEvents \<Rightarrow> nat FutureAlsaEvents" where
  "chainEnding t 0 tail = tail"
| "chainEnding t (Suc n) tail = Ready (AlsaEventBatch (chainEnding (t + 1) n tail) [60] t)"

definition longQueue :: "nat \<Rightarrow> nat Queue" where
  "longQueue n =
     \<lparr>carryOnFlag = True, stateFlag = running, currentEventBatchCount = int n,
      queueHead = chainEnding 0 n (Waiting Polling)\<rparr>"

text \<open>
  For the scheduler: a clock that reads \<open>T\<close> throughout one call; a conversion of
  frames at 48000 frames per second; a server that reports a period of 20
  milliseconds at the start of a cycle, and one whose cycle time query fails; the
  timing variables after a first resynchronisation at the instant 100000000.
\<close>

definition atInstant :: "TimePoint \<Rightarrow> ClockReadings" where
  "atInstant T = \<lparr>now1 = T, now2 = T, now3 = T\<rparr>"

definition exampleFrames2duration :: "nat \<Rightarrow> SysTimeUnits" where
  "exampleFrames2duration frames = (int frames * 1000000000) div 48000"

definition okJack :: CycleTimes where
  "okJack = \<lparr>err = 0, periodSysTimeUnits = 20000000, framesSinceCycleStart = 0\<rparr>"

definition failJack :: CycleTimes where
  "failJack = \<lparr>err = - 1, periodSysTimeUnits = 0, framesSinceCycleStart = 0\<rparr>"

definition initialTiming :: Timing where
  "initialTiming = \<lparr>g_cycleLength = 0, g_previousDeadline = 0, g_resetTimingCount = 0\<rparr>"

definition syncedTiming :: Timing where
  "syncedTiming =
     \<lparr>g_cycleLength = 20000000, g_previousDeadline = 99500000, g_resetTimingCount = 1\<rparr>"

section \<open>Properties of the receiver queue\<close>

subsection \<open>What \<open>processInternal\<close> computes\<close>

lemma invokeClosureForeachEvent_invokeAll:
  "invokeClosureForeachEvent events t closure u =
     invokeAll closure u (map (\<lambda>event. (event, t)) events)"
  by (induction events arbitrary: u) (simp_all add: invokeAll_def)

lemma invokeAll_append:
  "invokeAll closure u (xs @ ys) = invokeAll closure (invokeAll closure u xs) ys"
  by (simp add: invokeAll_def)

lemma invokeAll_logCall: "invokeAll logCall log cs = log @ cs"
  by (induction cs arbitrary: log) (simp_all add: invokeAll_def logCall_def)

lemma headAfter_Ready:
  "headAfter deadline (Ready (AlsaEventBatch nxt events timestamp)) =
     (if timestamp > deadline then Inr (Ready (AlsaEventBatch nxt events timestamp))
      else headAfter deadline nxt)"
  by (simp add: headAfter_def keptBatches_def cong: list.case_cong)

lemma headAfter_others:
  "headAfter deadline (Failed e) = (if e = InterruptedException then Inr Invalid else Inl e)"
  "headAfter deadline (Waiting l) = Inr (Waiting l)"
  "headAfter deadline Invalid = Inr Invalid"
  by (simp_all add: headAfter_def keptBatches_def)

lemma dueBatches_Ready:
  "dueBatches deadline (Ready (AlsaEventBatch nxt events timestamp)) =
     (if timestamp > deadline then []
      else AlsaEventBatch nxt events timestamp # dueBatches deadline nxt)"
  by (simp add: dueBatches_def)

lemma dueBatches_others:
  "dueBatches deadline (Failed e) = []"
  "dueBatches deadline (Waiting l) = []"
  "dueBatches deadline Invalid = []"
  by (simp_all add: dueBatches_def)

lemma keptBatches_Ready:
  "keptBatches deadline (Ready (AlsaEventBatch nxt events timestamp)) =
     (if timestamp > deadline then AlsaEventBatch nxt events timestamp # batches nxt
      else keptBatches deadline nxt)"
  by (simp add: keptBatches_def)

lemma keptBatches_others:
  "keptBatches deadline (Failed e) = []"
  "keptBatches deadline (Waiting l) = []"
  "keptBatches deadline Invalid = []"
  by (simp_all add: keptBatches_def)

lemma processInternal_eq:
  "processInternal head deadline closure w =
     (headAfter deadline head,
      fst w - int (length (dueBatches deadline head)),
      invokeAll closure (snd w) (concat (map calls (dueBatches deadline head))))"
proof (induction head deadline closure w rule: processInternal.induct)
  case (1 nxt events timestamp deadline closure cnt u)
  show ?case
  proof (cases "timestamp > deadline")
    case True
    then show ?thesis
      by (simp add: headAfter_Ready dueBatches_Ready invokeAll_def)
  next
    case False
    with 1 show ?thesis
      by (simp add: headAfter_Ready dueBatches_Ready calls_def
          invokeAll_append invokeClosureForeachEvent_invokeAll)
  qed
next
  case (2 e deadline closure cnt u)
  show ?case
    by (simp add: headAfter_others dueBatches_others invokeAll_def)
next
  case (3 l deadline closure cnt u)
  show ?case
    by (simp add: headAfter_others dueBatches_others invokeAll_def)
next
  case (4 deadline closure cnt u)
  show ?case
    by (simp add: headAfter_others dueBatches_others invokeAll_def)
qed

lemma process_eq:
  "process deadline closure (q, u) =
     (case headAfter deadline (queueHead q) of
        Inl e \<Rightarrow> Terminated e
      | Inr head \<Rightarrow>
          Returned
            (q\<lparr>queueHead := head,
               currentEventBatchCount :=
                 currentEventBatchCount q - int (length (dueBatches deadline (queueHead q)))\<rparr>,
             invokeAll closure u (concat (map calls (dueBatches deadline (queueHead q))))))"
proof (cases "valid (queueHead q)")
  case True
  then show ?thesis
    by (simp add: process_def processInternal_eq split: sum.split)
next
  case False
  then have "queueHead q = Invalid"
    by (cases "queueHead q") simp_all
  then show ?thesis
    by (simp add: process_def headAfter_others dueBatches_others invokeAll_def)
qed

subsection \<open>The chain after \<open>process\<close>\<close>

lemma batches_due_kept:
  "batches head = dueBatches deadline head @ keptBatches deadline head"
  by (simp add: dueBatches_def keptBatches_def)

lemma chainEnd_not_Ready: "chainEnd head \<noteq> Ready b"
  by (induction head rule: chainEnd.induct) simp_all

lemma batches_chainEnd: "batches (chainEnd head) = []"
  by (induction head rule: chainEnd.induct) simp_all

lemma headAfter_batches:
  "headAfter deadline head = Inr head' \<Longrightarrow> batches head' = keptBatches deadline head"
proof (induction head rule: batches.induct)
  case (1 nxt events timestamp)
  then show ?case
    by (auto simp add: headAfter_Ready keptBatches_Ready split: if_splits)
next
  case (2 e)
  then show ?case
    by (auto simp add: headAfter_others keptBatches_others split: if_splits)
next
  case (3 l)
  then show ?case
    by (auto simp add: headAfter_others keptBatches_others)
next
  case 4
  then show ?case
    by (auto simp add: headAfter_others keptBatches_others)
qed

lemma headAfter_chainEnd:
  "headAfter deadline head = Inr head' \<Longrightarrow>
     chainEnd head' =
       (if chainEnd head = Failed InterruptedException \<and> keptBatches deadline head = []
        then Invalid else chainEnd head)"
proof (induction head rule: batches.induct)
  case (1 nxt events timestamp)
  then show ?case
    by (auto simp add: headAfter_Ready keptBatches_Ready split: if_splits)
next
  case (2 e)
  then show ?case
    by (auto simp add: headAfter_others keptBatches_others split: if_splits)
next
  case (3 l)
  then show ?case
    by (auto simp add: headAfter_others keptBatches_others)
next
  case 4
  then show ?case
    by (auto simp add: headAfter_others keptBatches_others)
qed

lemma headAfter_kept:
  "keptBatches deadline head = b # bs \<Longrightarrow> headAfter deadline head = Inr (Ready b)"
  by (simp add: headAfter_def)

lemma headAfter_end:
  "keptBatches deadline head = [] \<Longrightarrow>
     headAfter deadline head =
       (case chainEnd head of
          Failed e \<Rightarrow> if e = InterruptedException then Inr Invalid else Inl e
        | Waiting l \<Rightarrow> Inr (Waiting l)
        | Invalid \<Rightarrow> Inr Invalid
        | Ready b \<Rightarrow> Inr (Ready b))"
  by (simp add: headAfter_def)

lemma keptBatches_hd:
  "keptBatches deadline head = b # bs \<Longrightarrow> deadline < getTimeStamp b"
  unfolding keptBatches_def
  using hd_dropWhile [of "\<lambda>b. getTimeStamp b \<le> deadline" "batches head"]
  by fastforce

lemma dueBatches_within:
  "b \<in> set (dueBatches deadline head) \<Longrightarrow> getTimeStamp b \<le> deadline"
  unfolding dueBatches_def by (rule set_takeWhileD [THEN conjunct2])

subsection \<open>The batch counter\<close>

lemma release_batchCount: "release f c = c - int (batchCount f)"
  by (induction f c rule: release.induct) simp_all

lemma batchCount_listenForEvents: "batchCount (listenForEvents fdsCount rounds) = 0"
  by (simp add: listenForEvents_def startNextFuture_def split: sum.split Listened.split)

lemma listenerStep_count:
  "listenerStep flag now f c f' c' \<Longrightarrow> c' - int (batchCount f') = c - int (batchCount f)"
  by (induction rule: listenerStep.induct) (simp_all add: batchCount_listenForEvents)

lemma listenerStep_valid: "listenerStep flag now f c f' c' \<Longrightarrow> f \<noteq> Invalid"
  by (induction rule: listenerStep.induct) simp_all

lemma batchCount_headAfter:
  "headAfter deadline head = Inr head' \<Longrightarrow>
     int (batchCount head') = int (batchCount head) - int (length (dueBatches deadline head))"
proof (induction head rule: batches.induct)
  case (1 nxt events timestamp)
  then show ?case
    by (auto simp add: headAfter_Ready dueBatches_Ready split: if_splits)
next
  case (2 e)
  then show ?case
    by (auto simp add: headAfter_others dueBatches_others split: if_splits)
next
  case (3 l)
  then show ?case
    by (auto simp add: headAfter_others dueBatches_others)
next
  case 4
  then show ?case
    by (auto simp add: headAfter_others dueBatches_others)
qed

lemma queueInvariant_process:
  assumes "process deadline closure (q, u) = Returned (q', u')" and "queueInvariant q"
  shows "queueInvariant q'"
proof -
  from assms(1) obtain head' where h: "headAfter deadline (queueHead q) = Inr head'"
    and q': "q' = q\<lparr>queueHead := head',
        currentEventBatchCount :=
          currentEventBatchCount q - int (length (dueBatches deadline (queueHead q)))\<rparr>"
    by (auto simp add: process_eq split: sum.splits)
  have "stateFlag q = stopped \<Longrightarrow> head' = Invalid"
    using assms(2) h by (auto simp add: queueInvariant_def headAfter_others)
  with batchCount_headAfter [OF h] q' assms(2) show ?thesis
    by (auto simp add: queueInvariant_def)
qed

lemma queueInvariant_stopInternal: "queueInvariant q \<Longrightarrow> queueInvariant (stopInternal q)"
  by (simp add: queueInvariant_def stopInternal_def release_batchCount)

lemma queueInvariant_start: "queueInvariant q \<Longrightarrow> queueInvariant (snd (start q))"
  by (cases "stateFlag q")
    (simp_all add: queueInvariant_def start_def startInternal_def stopInternal_def
      release_batchCount startNextFuture_def)

lemma reachable_invariant: "reachable q t \<Longrightarrow> queueInvariant q"
proof (induction rule: reachable.induct)
  case (initially t)
  show ?case by (simp add: queueInvariant_def initialQueue_def)
next
  case (tick q t t')
  then show ?case by simp
next
  case (starting q t)
  then show ?case by (simp add: queueInvariant_start)
next
  case (stopping q t)
  then show ?case by (simp add: stop_def queueInvariant_stopInternal)
next
  case (processing q t deadline q')
  then show ?case by (simp add: queueInvariant_process)
next
  case (listening q t f c)
  from listenerStep_count [OF listening.hyps(2)] listenerStep_valid [OF listening.hyps(2)]
    listening.IH
  show ?case
    by (cases "stateFlag q") (auto simp add: queueInvariant_def)
qed

subsection \<open>The listener on the examples\<close>

lemma retrieveLoop_fifoReplies:
  "retrieveLoop (fifoReplies events) eventList = Inr (rev events @ eventList)"
proof (induction events arbitrary: eventList)
  case Nil
  show ?case by (simp add: retrieveBody_def)
next
  case (Cons event rest)
  have "retrieveBody (int (length rest)) (Some event) eventList = Inr (event # eventList)"
    by (simp add: retrieveBody_def checkAlsa_def EAGAIN_def)
  with Cons show ?case
    by (cases rest) (simp_all add: retrieveBody_def)
qed

lemma retrieveEvents_fifoReplies: "retrieveEvents (fifoReplies events) = Inr (rev events)"
  by (simp add: retrieveEvents_def retrieveLoop_fifoReplies)

lemma listenForEvents_exampleRound:
  "fifo \<noteq> [] \<Longrightarrow>
     listenForEvents 1 [exampleRound fifo] = Waiting (Packing (rev fifo) (Waiting Polling))"
  by (simp add: listenForEvents_def exampleRound_def checkAlsa_def retrieveEvents_fifoReplies
      startNextFuture_def)

lemma listenForEvents_failingRound:
  "listenForEvents 1 [failingRound] = Failed (runtime_error ''ALSA problem'')"
  by (simp add: listenForEvents_def failingRound_def checkAlsa_def retrieveEvents_def
      retrieveBody_def EAGAIN_def)

lemma listenerStep_exampleRound:
  assumes "fifo \<noteq> []" and "events = rev fifo" and "c' = c"
  shows "listenerStep True now (Waiting Polling) c (Waiting (Packing events (Waiting Polling))) c'"
proof -
  have "\<forall>r \<in> set [exampleRound fifo]. carryOn1 r = True \<and> carryOn2 r = True"
    by (simp add: exampleRound_def)
  from listen [OF this, of now c 1] assms show ?thesis
    by (simp add: listenForEvents_exampleRound)
qed

lemma listenerStep_failingRound:
  assumes "c' = c"
  shows "listenerStep True now (Waiting Polling) c (Failed (runtime_error ''ALSA problem'')) c'"
proof -
  have "\<forall>r \<in> set [failingRound]. carryOn1 r = True \<and> carryOn2 r = True"
    by (simp add: failingRound_def)
  from listen [OF this, of now c 1] assms show ?thesis
    by (simp add: listenForEvents_failingRound)
qed

lemma listenerStep_pack:
  assumes "c' = c + 1"
  shows "listenerStep flag now (Waiting (Packing events nextFuture)) c
           (Ready (AlsaEventBatch nextFuture events now)) c'"
  using assms pack [of flag now events nextFuture c] by simp

lemma reachable_listening:
  assumes "reachable q t"
    and "listenerStep (carryOnFlag q) t (queueHead q) (currentEventBatchCount q) f c"
    and "q' = q\<lparr>queueHead := f, currentEventBatchCount := c\<rparr>"
  shows "reachable q' t"
  using assms listening by simp

lemma reachable_started:
  "reachable \<lparr>carryOnFlag = True, stateFlag = running, currentEventBatchCount = 0,
      queueHead = Waiting Polling\<rparr> t"
proof -
  have "reachable (snd (start (initialQueue :: 'a Queue))) t"
    by (rule starting) (rule initially)
  then show ?thesis
    by (simp add: start_def startInternal_def initialQueue_def startNextFuture_def)
qed

lemma reachable_firstBatch:
  "reachable (\<lparr>carryOnFlag = True, stateFlag = running, currentEventBatchCount = 1,
      queueHead = Ready (AlsaEventBatch (Waiting Polling) [64, 60] 10)\<rparr> :: nat Queue) 10"
proof -
  have "reachable (\<lparr>carryOnFlag = True, stateFlag = running, currentEventBatchCount = 0,
      queueHead = Waiting (Packing [64, 60] (Waiting Polling))\<rparr> :: nat Queue) 10"
    by (rule reachable_listening [OF reachable_started])
      (simp_all add: listenerStep_exampleRound [of "[60, 64]"])
  then show ?thesis
    by (rule reachable_listening) (simp_all add: listenerStep_pack)
qed

lemma reachable_exampleQueue: "reachable exampleQueue 20"
proof -
  from reachable_firstBatch
  have "reachable (\<lparr>carryOnFlag = True, stateFlag = running, currentEventBatchCount = 1,
      queueHead = Ready (AlsaEventBatch (Waiting Polling) [64, 60] 10)\<rparr> :: nat Queue) 20"
    by (rule tick) simp
  then have "reachable (\<lparr>carryOnFlag = True, stateFlag = running, currentEventBatchCount = 1,
      queueHead = Ready (AlsaEventBatch (Waiting (Packing [62] (Waiting Polling))) [64, 60] 10)\<rparr>
        :: nat Queue) 20"
    by (rule reachable_listening)
      (simp_all add: inBatch listenerStep_exampleRound [of "[62]"])
  then show ?thesis
    unfolding exampleQueue_def
    by (rule reachable_listening) (simp_all add: inBatch listenerStep_pack)
qed

lemma reachable_racedQueue: "reachable racedQueue 2"
proof -
  have "reachable (\<lparr>carryOnFlag = True, stateFlag = running, currentEventBatchCount = 0,
      queueHead = Waiting (Packing [60] (Waiting Polling))\<rparr> :: nat Queue) 0"
    by (rule reachable_listening [OF reachable_started])
      (simp_all add: listenerStep_exampleRound [of "[60]"])
  then have "reachable (\<lparr>carryOnFlag = True, stateFlag = running, currentEventBatchCount = 0,
      queueHead = Waiting (Packing [60] (Waiting (Packing [62] (Waiting Polling))))\<rparr>
        :: nat Queue) 0"
    by (rule reachable_listening)
      (simp_all add: inNextFuture listenerStep_exampleRound [of "[62]"])
  then have "reachable (\<lparr>carryOnFlag = True, stateFlag = running, currentEventBatchCount = 0,
      queueHead = Waiting (Packing [60] (Waiting (Packing [62] (Waiting Polling))))\<rparr>
        :: nat Queue) 1"
    by (rule tick) simp
  then have "reachable (\<lparr>carryOnFlag = True, stateFlag = running, currentEventBatchCount = 1,
      queueHead = Waiting (Packing [60] (Ready (AlsaEventBatch (Waiting Polling) [62] 1)))\<rparr>
        :: nat Queue) 1"
    by (rule reachable_listening) (simp_all add: inNextFuture listenerStep_pack)
  then have "reachable (\<lparr>carryOnFlag = True, stateFlag = running, currentEventBatchCount = 1,
      queueHead = Waiting (Packing [60] (Ready (AlsaEventBatch (Waiting Polling) [62] 1)))\<rparr>
        :: nat Queue) 2"
    by (rule tick) simp
  then show ?thesis
    unfolding racedQueue_def
    by (rule reachable_listening) (simp_all add: listenerStep_pack)
qed

lemma reachable_fatalQueue: "reachable fatalQueue 0"
  unfolding fatalQueue_def
  by (rule reachable_listening [OF reachable_started]) (simp_all add: listenerStep_failingRound)

lemma reachable_lateFatalQueue: "reachable lateFatalQueue 10"
  unfolding lateFatalQueue_def
  by (rule reachable_listening [OF reachable_firstBatch])
    (simp_all add: inBatch listenerStep_failingRound)

subsection \<open>Long chains\<close>

lemma listenerStep_chainEnding:
  "listenerStep flag now f c f' c' \<Longrightarrow>
     listenerStep flag now (chainEnding t n f) c (chainEnding t n f') c'"
  by (induction n arbitrary: t) (simp_all add: inBatch)

lemma chainEnding_Suc:
  "chainEnding t n (Ready (AlsaEventBatch tail [60] (t + int n))) = chainEnding t (Suc n) tail"
proof (induction n arbitrary: t)
  case 0
  show ?case by simp
next
  case (Suc n)
  have "chainEnding t (Suc n) (Ready (AlsaEventBatch tail [60] (t + int (Suc n)))) =
      Ready (AlsaEventBatch
        (chainEnding (t + 1) n (Ready (AlsaEventBatch tail [60] ((t + 1) + int n)))) [60] t)"
    by (simp add: algebra_simps)
  also have "\<dots> = Ready (AlsaEventBatch (chainEnding (t + 1) (Suc n) tail) [60] t)"
    by (simp only: Suc.IH)
  also have "\<dots> = chainEnding t (Suc (Suc n)) tail"
    by simp
  finally show ?case .
qed

lemma destructorDepth_chainEnding:
  "destructorDepth (chainEnding t n tail) = n + destructorDepth tail"
  by (induction n arbitrary: t) simp_all

lemma batches_chainEnding:
  "length (batches (chainEnding t n (Waiting Polling))) = n"
  by (induction n arbitrary: t) simp_all

lemma reachable_longQueue: "reachable (longQueue n) (int n)"
proof (induction n)
  case 0
  show ?case
    unfolding longQueue_def using reachable_started [of 0] by simp
next
  case (Suc n)
  have "listenerStep True (int n) (Waiting Polling) (int n)
      (Waiting (Packing [60] (Waiting Polling))) (int n)"
    by (rule listenerStep_exampleRound [of "[60]"]) simp_all
  then have l1: "listenerStep True (int n) (chainEnding 0 n (Waiting Polling)) (int n)
      (chainEnding 0 n (Waiting (Packing [60] (Waiting Polling)))) (int n)"
    by (rule listenerStep_chainEnding)
  have r1: "reachable (\<lparr>carryOnFlag = True, stateFlag = running,
      currentEventBatchCount = int n,
      queueHead = chainEnding 0 n (Waiting (Packing [60] (Waiting Polling)))\<rparr> :: nat Queue)
      (int n)"
    by (rule reachable_listening [OF Suc,
          where f = "chainEnding 0 n (Waiting (Packing [60] (Waiting Polling)))"
            and c = "int n"])
      (simp_all add: longQueue_def l1)
  have "listenerStep True (int n) (Waiting (Packing [60] (Waiting Polling))) (int n)
      (Ready (AlsaEventBatch (Waiting Polling) [60] (int n))) (int n + 1)"
    by (rule pack)
  then have l2: "listenerStep True (int n)
      (chainEnding 0 n (Waiting (Packing [60] (Waiting Polling)))) (int n)
      (chainEnding 0 n (Ready (AlsaEventBatch (Waiting Polling) [60] (int n)))) (int n + 1)"
    by (rule listenerStep_chainEnding)
  have e: "chainEnding 0 n (Ready (AlsaEventBatch (Waiting Polling) [60] (int n)))
      = chainEnding 0 (Suc n) (Waiting Polling)"
    using chainEnding_Suc [of 0 n "Waiting Polling"] by simp
  note l3 = l2 [unfolded e]
  have "reachable (longQueue (Suc n)) (int n)"
    by (rule reachable_listening [OF r1,
          where f = "chainEnding 0 (Suc n) (Waiting Polling)" and c = "int n + 1"])
      (simp_all add: longQueue_def l3 del: chainEnding.simps)
  then show ?case
    by (rule tick) simp
qed

subsection \<open>Draining up to a deadline\<close>

text \<open>
  Claim C1. For every deadline and every chain in which the drain does not run into a
  fatal error (that case is claim C3), \<open>process\<close> returns; it has invoked the closure
  once per event of each due batch, batch after batch in chain order, where the due
  batches are the ready batches at the head of the chain with a time stamp up to the
  deadline; the chain afterwards holds exactly the other batches, none is lost; when a
  ready batch beyond the deadline was reached, the new head is a ready future with that
  very batch, otherwise the new head is the future at which the ready batches ended (a
  waiting one stays, an interrupted one leaves the head invalid); so a head that is ready
  after the call holds a batch with a time stamp beyond the deadline. The batch counter
  goes down by the number of due batches, the flags are not touched.
\<close>

theorem process_drains_until_deadline:
  assumes "keptBatches deadline (queueHead q) \<noteq> [] \<or> \<not> fatal (chainEnd (queueHead q))"
  shows "\<exists>q' u'. process deadline closure (q, u) = Returned (q', u')
           \<and> u' = invokeAll closure u (concat (map calls (dueBatches deadline (queueHead q))))
           \<and> batches (queueHead q) = dueBatches deadline (queueHead q) @ batches (queueHead q')
           \<and> batches (queueHead q') = keptBatches deadline (queueHead q)
           \<and> (keptBatches deadline (queueHead q) \<noteq> [] \<longrightarrow>
                 queueHead q' = Ready (hd (keptBatches deadline (queueHead q))))
           \<and> (keptBatches deadline (queueHead q) = [] \<longrightarrow>
                 queueHead q' = (if chainEnd (queueHead q) = Failed InterruptedException
                                 then Invalid else chainEnd (queueHead q)))
           \<and> (isReady (queueHead q') \<longrightarrow>
                 (\<exists>b. queueHead q' = Ready b \<and> deadline < getTimeStamp b))
           \<and> currentEventBatchCount q' =
                 currentEventBatchCount q - int (length (dueBatches deadline (queueHead q)))
           \<and> stateFlag q' = stateFlag q \<and> carryOnFlag q' = carryOnFlag q"
proof (cases "keptBatches deadline (queueHead q)")
  case (Cons b bs)
  have "headAfter deadline (queueHead q) = Inr (Ready b)"
    by (rule headAfter_kept [OF Cons])
  with headAfter_batches [OF this] keptBatches_hd [OF Cons] Cons
    batches_due_kept [of "queueHead q" deadline]
  show ?thesis
    by (simp add: process_eq)
next
  case Nil
  with assms have nf: "\<not> fatal (chainEnd (queueHead q))" by simp
  obtain head' where h: "headAfter deadline (queueHead q) = Inr head'"
    and head': "head' = (if chainEnd (queueHead q) = Failed InterruptedException
                 then Invalid else chainEnd (queueHead q))"
    using nf chainEnd_not_Ready [of "queueHead q"]
    by (cases "chainEnd (queueHead q)") (auto simp add: headAfter_end [OF Nil])
  have nr: "\<not> isReady head'"
    using nf chainEnd_not_Ready [of "queueHead q"] head'
    by (cases "chainEnd (queueHead q)") auto
  from h head' nr Nil headAfter_batches [OF h] batches_due_kept [of "queueHead q" deadline]
  show ?thesis
    by (simp add: process_eq)
qed

theorem process_drains_until_deadline_witness:
  "keptBatches 15 (queueHead exampleQueue) \<noteq> []
   \<and> (\<exists>q' u'. process 15 logCall (exampleQueue, []) = Returned (q', u')
          \<and> u' = [(64, 10), (60, 10)]
          \<and> queueHead q' = Ready (AlsaEventBatch (Waiting Polling) [62] 20)
          \<and> isReady (queueHead q')
          \<and> currentEventBatchCount q' = 1)"
  using process_drains_until_deadline [of 15 exampleQueue logCall "[]"]
  by (auto simp add: exampleQueue_def keptBatches_def dueBatches_def calls_def
      invokeAll_logCall)

text \<open>
  Claim C2. The claim asks for the events of a batch in the order in which they were
  pulled from the sequencer. The code pushes each event to the front of the list and
  passes the list front to back: with the events 60 and 64 in the FIFO, 60 the older
  one, the listener's batch holds 64 before 60, and the closure is invoked for 64
  first. (The same list results when the sequencer answers every successful call with
  the status 1 and the loop only ends on \<open>-EAGAIN\<close>.)
\<close>

theorem batch_events_reversed:
  "fifoReplies [60 :: nat, 64] = [(1, Some 60), (0, Some 64)]
   \<and> retrieveEvents (fifoReplies [60 :: nat, 64]) = Inr [64, 60]
   \<and> retrieveEvents [(1, Some (60 :: nat)), (1, Some 64)] = Inr [64, 60]
   \<and> listenForEvents 1 [exampleRound [60 :: nat, 64]]
       = Waiting (Packing [64, 60] (Waiting Polling))
   \<and> invokeClosureForeachEvent [64 :: nat, 60] 10 logCall [] = [(64, 10), (60, 10)]"
  using retrieveEvents_fifoReplies [of "[60 :: nat, 64]"]
    listenForEvents_exampleRound [of "[60 :: nat, 64]"]
  by (simp add: logCall_def)
    (simp add: retrieveEvents_def retrieveBody_def checkAlsa_def EAGAIN_def)

text \<open>
  Claim C3, as the code has it. When the listener ended on a fatal error, a call of
  \<open>process\<close> whose drain gets as far as the failed future (all batches before it are
  due) does not return to its caller: the exception leaves \<open>processInternal\<close>, and
  \<open>process\<close>, being \<open>noexcept\<close>, terminates the program. A call that stops before, at
  a batch beyond the deadline, returns as usual, with the state flag unchanged and the
  failed future still at the end of the chain.
\<close>

theorem fatal_error_terminates_process:
  assumes "fatal (chainEnd (queueHead q))"
  shows "(keptBatches deadline (queueHead q) = [] \<longrightarrow>
            (\<exists>e. chainEnd (queueHead q) = Failed e
               \<and> fst (processInternal (queueHead q) deadline closure
                        (currentEventBatchCount q, u)) = Inl e
               \<and> process deadline closure (q, u) = Terminated e))
         \<and> (keptBatches deadline (queueHead q) \<noteq> [] \<longrightarrow>
            (\<exists>q' u'. process deadline closure (q, u) = Returned (q', u')
               \<and> stateFlag q' = stateFlag q
               \<and> chainEnd (queueHead q') = chainEnd (queueHead q)))"
proof (cases "keptBatches deadline (queueHead q)")
  case Nil
  from assms obtain e where e: "chainEnd (queueHead q) = Failed e" "e \<noteq> InterruptedException"
    by (cases "chainEnd (queueHead q)") auto
  with Nil show ?thesis
    by (simp add: process_eq processInternal_eq headAfter_end)
next
  case (Cons b bs)
  have h: "headAfter deadline (queueHead q) = Inr (Ready b)"
    by (rule headAfter_kept [OF Cons])
  from headAfter_chainEnd [OF h] Cons h show ?thesis
    by (simp add: process_eq)
qed

theorem fatal_error_terminates_process_witness:
  "fatal (chainEnd (queueHead fatalQueue))
   \<and> keptBatches 0 (queueHead fatalQueue) = []
   \<and> process 0 logCall (fatalQueue, []) = Terminated (runtime_error ''ALSA problem'')
   \<and> fatal (chainEnd (queueHead lateFatalQueue))
   \<and> keptBatches 5 (queueHead lateFatalQueue) \<noteq> []
   \<and> (\<exists>q' u'. process 5 logCall (lateFatalQueue, []) = Returned (q', u')
         \<and> stateFlag q' = running
         \<and> chainEnd (queueHead q') = Failed (runtime_error ''ALSA problem''))"
  using fatal_error_terminates_process [of fatalQueue 0 logCall "[]"]
    fatal_error_terminates_process [of lateFatalQueue 5 logCall "[]"]
  by (simp add: fatalQueue_def lateFatalQueue_def keptBatches_def)

text \<open>
  The claim C3 as stated fails on both queues: on the first, which is reachable, the
  caller of \<open>process\<close> never gets the error, the program is terminated; on the second,
  reachable as well, the call returns without any error, and the queue is still
  running.
\<close>

theorem fatal_error_not_surfaced:
  "reachable fatalQueue 0
   \<and> process 0 logCall (fatalQueue, []) = Terminated (runtime_error ''ALSA problem'')
   \<and> reachable lateFatalQueue 10
   \<and> process 5 logCall (lateFatalQueue, []) = Returned (lateFatalQueue, [])
   \<and> stateFlag lateFatalQueue = running"
  by (simp add: reachable_fatalQueue reachable_lateFatalQueue process_eq)
    (simp add: fatalQueue_def lateFatalQueue_def headAfter_def keptBatches_def dueBatches_def
      invokeAll_def)

subsection \<open>Order of delivery\<close>

text \<open>
  \<open>process\<close> follows the chain: the closure is invoked for the events of the first
  \<open>k\<close> batches of the chain, batch after batch, where \<open>k\<close> is the number of
  batches taken off the chain; those batches have time stamps up to the deadline, and
  the chain keeps the others in their order.
\<close>

lemma process_delivers_in_chain_order:
  assumes "process deadline closure (q, u) = Returned (q', u')"
  shows "\<exists>k. u' = invokeAll closure u (concat (map calls (take k (batches (queueHead q)))))
           \<and> batches (queueHead q') = drop k (batches (queueHead q))
           \<and> (\<forall>b \<in> set (take k (batches (queueHead q))). getTimeStamp b \<le> deadline)
           \<and> currentEventBatchCount q' = currentEventBatchCount q - int k"
proof -
  let ?due = "dueBatches deadline (queueHead q)"
  from assms obtain head' where h: "headAfter deadline (queueHead q) = Inr head'"
    and q': "queueHead q' = head'"
      "currentEventBatchCount q' = currentEventBatchCount q - int (length ?due)"
    and u': "u' = invokeAll closure u (concat (map calls ?due))"
    by (auto simp add: process_eq split: sum.splits)
  have take: "take (length ?due) (batches (queueHead q)) = ?due"
    unfolding dueBatches_def by (rule takeWhile_eq_take [symmetric])
  have "drop (length ?due) (batches (queueHead q)) = keptBatches deadline (queueHead q)"
    unfolding dueBatches_def keptBatches_def by (rule dropWhile_eq_drop [symmetric])
  with headAfter_batches [OF h] q'
  have drop: "batches (queueHead q') = drop (length ?due) (batches (queueHead q))"
    by simp
  have "\<forall>b \<in> set ?due. getTimeStamp b \<le> deadline"
    by (simp add: dueBatches_within)
  with take drop u' q' show ?thesis
    by (intro exI [of _ "length ?due"]) simp
qed

lemma process_delivers_in_chain_order_example:
  "process 15 logCall (exampleQueue, []) =
     Returned (exampleQueue\<lparr>queueHead := Ready (AlsaEventBatch (Waiting Polling) [62] 20),
                 currentEventBatchCount := 1\<rparr>, [(64, 10), (60, 10)])
   \<and> (\<exists>k. [(64, 10), (60, 10)] =
          invokeAll logCall [] (concat (map calls (take k (batches (queueHead exampleQueue)))))
        \<and> [AlsaEventBatch (Waiting Polling) [62] 20] = drop k (batches (queueHead exampleQueue))
        \<and> 1 = 2 - int k)"
proof -
  have p: "process 15 logCall (exampleQueue, []) =
     Returned (exampleQueue\<lparr>queueHead := Ready (AlsaEventBatch (Waiting Polling) [62] 20),
                 currentEventBatchCount := 1\<rparr>, [(64, 10), (60, 10)])"
    by (simp add: process_eq)
      (simp add: exampleQueue_def headAfter_def keptBatches_def dueBatches_def calls_def
        invokeAll_logCall)
  from process_delivers_in_chain_order [OF p] p show ?thesis
    by (auto simp add: exampleQueue_def)
qed

text \<open>
  Claim C8. The claim asks for non-decreasing time stamps along the chain, so that the
  consumer sees the batches in the order of their time stamps. The listener launches
  its successor (line 327) before it reads the clock for its own batch (line 330), so
  the two listeners run side by side, and nothing orders their readings. On the queue
  below, which is reachable, the successor retrieved the event 62 and read the clock at
  1, and only then the first listener read the clock, at 2: the first batch of the
  chain has the later time stamp. \<open>process\<close> with the deadline 2 hands the time
  stamps 2 and then 1 to the closure; with the deadline 1 it returns at the first
  batch, which is beyond the deadline, and the batch stamped 1 behind it, which is due,
  is not delivered.
\<close>

theorem timestamps_not_monotonic:
  "reachable racedQueue 2
   \<and> batches (queueHead racedQueue) =
       [AlsaEventBatch (Ready (AlsaEventBatch (Waiting Polling) [62] 1)) [60] 2,
        AlsaEventBatch (Waiting Polling) [62] 1]
   \<and> map getTimeStamp (batches (queueHead racedQueue)) = [2, 1]
   \<and> process 2 logCall (racedQueue, []) =
       Returned (racedQueue\<lparr>queueHead := Waiting Polling, currentEventBatchCount := 0\<rparr>,
         [(60, 2), (62, 1)])
   \<and> process 1 logCall (racedQueue, []) = Returned (racedQueue, [])"
  by (simp add: reachable_racedQueue process_eq)
    (simp add: racedQueue_def headAfter_def keptBatches_def dueBatches_def calls_def
      invokeAll_logCall)

subsection \<open>Stopping\<close>

text \<open>
  When the release of the chain runs to its end, \<open>stop\<close> leaves every reachable queue
  stopped, with the empty future as head, the flag cleared and the batch counter at 0.
\<close>

lemma stop_releases_queue:
  assumes "reachable q t"
  shows "getState (stop q) = stopped
         \<and> queueHead (stop q) = Invalid
         \<and> \<not> carryOnFlag (stop q)
         \<and> getCurrentEventBatchCount (stop q) = 0
         \<and> batches (queueHead (stop q)) = []"
proof -
  from reachable_invariant [OF assms]
  have "currentEventBatchCount q = int (batchCount (queueHead q))"
    by (simp add: queueInvariant_def)
  then show ?thesis
    by (simp add: stop_def stopInternal_def getState_def getCurrentEventBatchCount_def
        release_batchCount)
qed

lemma stop_releases_queue_example:
  "reachable exampleQueue 20
   \<and> getCurrentEventBatchCount exampleQueue = 2
   \<and> stopOnStack 2 exampleQueue = Completed (stop exampleQueue)
   \<and> getState (stop exampleQueue) = stopped
   \<and> queueHead (stop exampleQueue) = Invalid
   \<and> getCurrentEventBatchCount (stop exampleQueue) = 0"
  using stop_releases_queue [OF reachable_exampleQueue] reachable_exampleQueue
  by (simp add: getCurrentEventBatchCount_def stopOnStack_def exampleQueue_def)

text \<open>
  Claim C9. The claim asks that \<open>stop\<close> never fails, however many batches are queued.
  The chain is released by nested destructors, one inside the other for each batch, so
  the depth of the nesting is the number of queued batches. Whatever the depth
  \<open>stackDepth\<close> that the stack of the caller can hold, the queue in which the
  listeners have delivered one batch more than that, with no call of \<open>process\<close>
  in between, is reachable, and \<open>stop\<close> on it overflows the stack. The queue with
  20000 batches is reachable and needs 20000 nested destructors.
\<close>

theorem stop_overflows_stack:
  "reachable (longQueue (Suc stackDepth)) (int (Suc stackDepth))
   \<and> length (batches (queueHead (longQueue (Suc stackDepth)))) = Suc stackDepth
   \<and> destructorDepth (queueHead (longQueue (Suc stackDepth))) = Suc stackDepth
   \<and> stopOnStack stackDepth (longQueue (Suc stackDepth)) = StackOverflow
   \<and> reachable (longQueue 20000) 20000
   \<and> destructorDepth (queueHead (longQueue 20000)) = 20000"
  using reachable_longQueue [of "Suc stackDepth"] reachable_longQueue [of 20000]
  by (simp add: stopOnStack_def longQueue_def destructorDepth_chainEnding batches_chainEnding
      del: chainEnding.simps)

subsection \<open>\<open>process\<close> on a stopped queue\<close>

text \<open>
  Claim C10. When the head future is not valid, \<open>process\<close> returns without an
  exception, leaves the whole queue state as it is and the caller state as well, so the
  closure was not invoked, whatever the deadline and the closure. A queue that is
  stopped, or was never started, has an invalid head in every reachable state.
\<close>

theorem process_on_stopped_queue:
  "(queueHead q = Invalid \<longrightarrow> process deadline closure (q, u) = Returned (q, u))
   \<and> (reachable q t \<and> getState q = stopped \<longrightarrow>
        queueHead q = Invalid \<and> process deadline closure (q, u) = Returned (q, u))"
proof -
  have a: "process deadline closure (q, u) = Returned (q, u)" if "queueHead q = Invalid"
    using that by (simp add: process_def)
  have "queueHead q = Invalid" if "reachable q t" "getState q = stopped"
    using reachable_invariant [OF that(1)] that(2)
    by (simp add: queueInvariant_def getState_def)
  with a show ?thesis
    by blast
qed

theorem process_on_stopped_queue_witness:
  "queueHead (initialQueue :: nat Queue) = Invalid
   \<and> process 7 logCall (initialQueue :: nat Queue, []) = Returned (initialQueue, [])
   \<and> reachable (stop exampleQueue) 20
   \<and> getState (stop exampleQueue) = stopped
   \<and> process 7 logCall (stop exampleQueue, []) = Returned (stop exampleQueue, [])"
proof -
  have r: "reachable (stop exampleQueue) 20"
    by (rule stopping) (rule reachable_exampleQueue)
  have s: "getState (stop exampleQueue) = stopped"
    by (simp add: getState_def stop_def stopInternal_def)
  have i: "queueHead (initialQueue :: nat Queue) = Invalid"
    by (simp add: initialQueue_def)
  from process_on_stopped_queue [of "initialQueue :: nat Queue" 7 logCall "[]" 0] i
    process_on_stopped_queue [of "stop exampleQueue" 7 logCall "[]" 20] r s
  show ?thesis
    by simp
qed

section \<open>Properties of the cycle scheduler\<close>

lemma JITTER_COMPENSATION_pos: "0 < JITTER_COMPENSATION"
  by (simp add: JITTER_COMPENSATION_def)

lemma isPlausible_eq:
  "isPlausible nowLatest nowEarliest st deadline =
     (nowEarliest - g_cycleLength st - JITTER_COMPENSATION \<le> deadline \<and> deadline < nowLatest)"
  by (auto simp add: isPlausible_def Let_def)

lemma resetTiming_failed:
  "err jack \<noteq> 0 \<Longrightarrow>
     resetTiming frames2duration jack now st =
       (now, st\<lparr>g_resetTimingCount := g_resetTimingCount st + 1\<rparr>)"
  by (simp add: resetTiming_def)

lemma resetTiming_succeeded:
  "err jack = 0 \<Longrightarrow>
     resetTiming frames2duration jack now st =
       (now - frames2duration (framesSinceCycleStart jack) - JITTER_COMPENSATION,
        st\<lparr>g_resetTimingCount := g_resetTimingCount st + 1,
           g_cycleLength := periodSysTimeUnits jack,
           g_previousDeadline :=
             now - frames2duration (framesSinceCycleStart jack) - JITTER_COMPENSATION\<rparr>)"
  by (simp add: resetTiming_def Let_def)

lemma newDeadline_fast:
  "isPlausible (now1 clock) (now2 clock) st (g_previousDeadline st + g_cycleLength st) \<Longrightarrow>
     newDeadline frames2duration jack clock st =
       (g_previousDeadline st + g_cycleLength st,
        st\<lparr>g_previousDeadline := g_previousDeadline st + g_cycleLength st\<rparr>)"
  by (simp add: newDeadline_def Let_def)

lemma newDeadline_slow:
  "\<not> isPlausible (now1 clock) (now2 clock) st (g_previousDeadline st + g_cycleLength st) \<Longrightarrow>
     newDeadline frames2duration jack clock st = resetTiming frames2duration jack (now3 clock) st"
  by (simp add: newDeadline_def Let_def)

subsection \<open>Plausible deadlines\<close>

text \<open>
  Claim C7. \<open>isPlausible\<close> holds of a deadline exactly when the deadline lies in the
  interval from \<open>now() - cycle_length - JITTER_COMPENSATION\<close>, included, to \<open>now()\<close>,
  excluded. The function reads the clock once for each bound: the upper bound is the
  first reading, the lower bound is taken from the second one; for a clock that shows
  the same instant at both readings this is the claim word for word.
\<close>

theorem isPlausible_iff:
  "isPlausible nowLatest nowEarliest st deadline =
     (nowEarliest - g_cycleLength st - JITTER_COMPENSATION \<le> deadline \<and> deadline < nowLatest)
   \<and> isPlausible now now st deadline =
     (now - g_cycleLength st - JITTER_COMPENSATION \<le> deadline \<and> deadline < now)"
  by (simp add: isPlausible_eq)

subsection \<open>The deadline is not in the future\<close>

text \<open>
  Claim C6. On each of its three paths \<open>newDeadline\<close> returns a value that is not
  greater than the clock reading it has just taken: on the fast path the value is less
  than the first reading of \<open>isPlausible\<close>; after a resynchronisation it is the reading
  of \<open>resetTiming\<close> minus the time since the start of the cycle and the jitter
  compensation; after a failed one it is that reading itself. So with a monotonic clock
  the value is never greater than the clock at the end of the call. The duration that
  \<open>frames2duration\<close> gives for the unsigned frame count is taken not to be negative.
\<close>

theorem newDeadline_not_after_now:
  assumes "0 \<le> frames2duration (framesSinceCycleStart jack)"
  shows "(isPlausible (now1 clock) (now2 clock) st (g_previousDeadline st + g_cycleLength st)
            \<longrightarrow> fst (newDeadline frames2duration jack clock st) < now1 clock)
         \<and> (\<not> isPlausible (now1 clock) (now2 clock) st (g_previousDeadline st + g_cycleLength st)
            \<longrightarrow> fst (newDeadline frames2duration jack clock st) \<le> now3 clock)
         \<and> (now1 clock \<le> now3 clock
            \<longrightarrow> fst (newDeadline frames2duration jack clock st) \<le> now3 clock)"
proof -
  have fast: "fst (newDeadline frames2duration jack clock st) < now1 clock"
    if "isPlausible (now1 clock) (now2 clock) st (g_previousDeadline st + g_cycleLength st)"
    using that by (simp add: newDeadline_fast) (simp add: isPlausible_eq)
  have slow: "fst (newDeadline frames2duration jack clock st) \<le> now3 clock"
    if "\<not> isPlausible (now1 clock) (now2 clock) st (g_previousDeadline st + g_cycleLength st)"
  proof (cases "err jack = 0")
    case True
    with that assms JITTER_COMPENSATION_pos show ?thesis
      by (simp add: newDeadline_slow resetTiming_succeeded)
  next
    case False
    with that show ?thesis
      by (simp add: newDeadline_slow resetTiming_failed)
  qed
  from fast slow show ?thesis
    by fastforce
qed

theorem newDeadline_not_after_now_witness:
  "0 \<le> exampleFrames2duration (framesSinceCycleStart okJack)
   \<and> isPlausible 120000000 120000000 syncedTiming 119500000
   \<and> fst (newDeadline exampleFrames2duration okJack (atInstant 120000000) syncedTiming)
       < 120000000
   \<and> \<not> isPlausible 100000000 100000000 initialTiming 0
   \<and> fst (newDeadline exampleFrames2duration okJack (atInstant 100000000) initialTiming)
       \<le> 100000000
   \<and> fst (newDeadline exampleFrames2duration failJack (atInstant 100000000) initialTiming)
       \<le> 100000000"
proof -
  have f: "0 \<le> exampleFrames2duration (framesSinceCycleStart okJack)"
    "0 \<le> exampleFrames2duration (framesSinceCycleStart failJack)"
    by (simp_all add: exampleFrames2duration_def okJack_def failJack_def)
  have p: "isPlausible 120000000 120000000 syncedTiming 119500000"
    "\<not> isPlausible 100000000 100000000 initialTiming 0"
    by (simp_all add: isPlausible_eq syncedTiming_def initialTiming_def
        JITTER_COMPENSATION_def)
  have g: "g_previousDeadline syncedTiming + g_cycleLength syncedTiming = 119500000"
    "g_previousDeadline initialTiming + g_cycleLength initialTiming = 0"
    by (simp_all add: syncedTiming_def initialTiming_def)
  from newDeadline_not_after_now
         [of exampleFrames2duration okJack "atInstant 120000000" syncedTiming]
    newDeadline_not_after_now
         [of exampleFrames2duration okJack "atInstant 100000000" initialTiming]
    newDeadline_not_after_now
         [of exampleFrames2duration failJack "atInstant 100000000" initialTiming]
    f p
  show ?thesis
    by (simp add: atInstant_def g)
qed

subsection \<open>A failed resynchronisation\<close>

text \<open>
  What a failed resynchronisation does: when \<open>newDeadline\<close> takes the slow path and
  the cycle time query fails, \<open>resetTiming\<close> returns at line 160 with the reading of
  the clock, before any of the timing variables but the reset counter is written.
\<close>

lemma failed_resync_keeps_timing:
  assumes "\<not> isPlausible (now1 clock) (now2 clock) st
               (g_previousDeadline st + g_cycleLength st)"
    and "err jack \<noteq> 0"
  shows "newDeadline frames2duration jack clock st =
           (now3 clock, st\<lparr>g_resetTimingCount := g_resetTimingCount st + 1\<rparr>)
         \<and> (g_previousDeadline st + g_cycleLength st
               < now2 clock - g_cycleLength st - JITTER_COMPENSATION
             \<and> now2 clock \<le> now2 clock' \<longrightarrow>
             g_resetTimingCount
               (snd (newDeadline frames2duration jack' clock'
                       (snd (newDeadline frames2duration jack clock st))))
               = g_resetTimingCount st + 2)
         \<and> (g_cycleLength st = 0 \<and> g_previousDeadline st = 0
             \<and> JITTER_COMPENSATION < now2 clock' \<longrightarrow>
             g_resetTimingCount
               (snd (newDeadline frames2duration jack' clock'
                       (snd (newDeadline frames2duration jack clock st))))
               = g_resetTimingCount st + 2)"
proof -
  let ?st' = "st\<lparr>g_resetTimingCount := g_resetTimingCount st + 1\<rparr>"
  have first: "newDeadline frames2duration jack clock st = (now3 clock, ?st')"
    using assms by (simp add: newDeadline_slow resetTiming_failed)
  have again: "g_resetTimingCount (snd (newDeadline frames2duration jack' clock' ?st'))
      = g_resetTimingCount st + 2"
    if "\<not> isPlausible (now1 clock') (now2 clock') st
           (g_previousDeadline st + g_cycleLength st)"
  proof -
    from that have "\<not> isPlausible (now1 clock') (now2 clock') ?st'
        (g_previousDeadline ?st' + g_cycleLength ?st')"
      by (simp add: isPlausible_eq)
    then have "newDeadline frames2duration jack' clock' ?st'
        = resetTiming frames2duration jack' (now3 clock') ?st'"
      by (rule newDeadline_slow)
    then show ?thesis
      by (cases "err jack' = 0") (simp_all add: resetTiming_failed resetTiming_succeeded)
  qed
  have early: "\<not> isPlausible (now1 clock') (now2 clock') st
      (g_previousDeadline st + g_cycleLength st)"
    if "g_previousDeadline st + g_cycleLength st
          < now2 clock - g_cycleLength st - JITTER_COMPENSATION"
      and "now2 clock \<le> now2 clock'"
    using that by (simp add: isPlausible_eq)
  have invalid: "\<not> isPlausible (now1 clock') (now2 clock') st
      (g_previousDeadline st + g_cycleLength st)"
    if "g_cycleLength st = 0" "g_previousDeadline st = 0" "JITTER_COMPENSATION < now2 clock'"
    using that by (simp add: isPlausible_eq)
  from first again early invalid show ?thesis
    by simp
qed

lemma failed_resync_keeps_timing_example:
  "\<not> isPlausible 100000000 100000000 initialTiming 0
   \<and> err failJack \<noteq> 0
   \<and> newDeadline exampleFrames2duration failJack (atInstant 100000000) initialTiming
       = (100000000, initialTiming\<lparr>g_resetTimingCount := 1\<rparr>)
   \<and> g_cycleLength initialTiming = 0 \<and> g_previousDeadline initialTiming = 0
   \<and> JITTER_COMPENSATION < 120000000
   \<and> g_resetTimingCount
       (snd (newDeadline exampleFrames2duration okJack (atInstant 120000000)
               (snd (newDeadline exampleFrames2duration failJack (atInstant 100000000)
                       initialTiming))))
       = 2"
proof -
  have i: "g_cycleLength initialTiming = 0" "g_previousDeadline initialTiming = 0"
    and i0: "g_resetTimingCount initialTiming = 0"
    by (simp_all add: initialTiming_def)
  have p: "\<not> isPlausible 100000000 100000000 initialTiming 0"
    by (simp add: isPlausible_eq initialTiming_def JITTER_COMPENSATION_def)
  then have p': "\<not> isPlausible (now1 (atInstant 100000000)) (now2 (atInstant 100000000))
      initialTiming (g_previousDeadline initialTiming + g_cycleLength initialTiming)"
    by (simp add: i atInstant_def)
  have e: "err failJack \<noteq> 0"
    by (simp add: failJack_def)
  have j: "JITTER_COMPENSATION < 120000000"
    by (simp add: JITTER_COMPENSATION_def)
  then have j': "JITTER_COMPENSATION < now2 (atInstant 120000000)"
    by (simp add: atInstant_def)
  note t = failed_resync_keeps_timing
             [OF p' e, of exampleFrames2duration "atInstant 120000000" okJack]
  from t have "newDeadline exampleFrames2duration failJack (atInstant 100000000) initialTiming
      = (now3 (atInstant 100000000),
         initialTiming\<lparr>g_resetTimingCount := g_resetTimingCount initialTiming + 1\<rparr>)"
    by (rule conjunct1)
  then have first: "newDeadline exampleFrames2duration failJack (atInstant 100000000)
      initialTiming = (100000000, initialTiming\<lparr>g_resetTimingCount := 1\<rparr>)"
    by (simp only: i0) (simp add: atInstant_def)
  from t i j' have "g_resetTimingCount
       (snd (newDeadline exampleFrames2duration okJack (atInstant 120000000)
               (snd (newDeadline exampleFrames2duration failJack (atInstant 100000000)
                       initialTiming))))
       = g_resetTimingCount initialTiming + 2"
    by blast
  with i0 have second: "g_resetTimingCount
       (snd (newDeadline exampleFrames2duration okJack (atInstant 120000000)
               (snd (newDeadline exampleFrames2duration failJack (atInstant 100000000)
                       initialTiming))))
       = 2"
    by linarith
  from p e first i j second show ?thesis
    by blast
qed

text \<open>
  Claim C4. The claim asks that a failed resynchronisation returns the reading of the
  clock and leaves the timing variables invalidated, so that the next call
  resynchronises too. The early return of \<open>resetTiming\<close> (lines 158 to 161) returns
  the reading but neither calls \<open>invalidateTiming\<close> nor stores the returned value in
  \<open>g_previousDeadline\<close>, which the comments of \<open>resetTiming\<close> and of
  \<open>newDeadline\<close> promise (\<open>g_previousDeadline\<close> will be set to the same value as the
  one returned). After a first resynchronisation at the instant 100000000 (period
  20 ms) the next callback comes 19 ms later, one millisecond early: the tentative
  deadline 119500000 is not before the clock, the slow path is taken, the query fails,
  and 119000000 is returned while \<open>g_previousDeadline\<close> stays 99500000 and
  \<open>g_cycleLength\<close> stays 20 ms. The following callback, at 139000000, finds the same
  tentative deadline plausible: it takes the fast path, returns 119500000 and leaves
  the reset counter at 2.
\<close>

theorem failed_resync_then_fast_path:
  "newDeadline exampleFrames2duration okJack (atInstant 100000000) initialTiming
     = (99500000, syncedTiming)
   \<and> newDeadline exampleFrames2duration failJack (atInstant 119000000) syncedTiming
     = (119000000, syncedTiming\<lparr>g_resetTimingCount := 2\<rparr>)
   \<and> g_previousDeadline (syncedTiming\<lparr>g_resetTimingCount := 2\<rparr>) = 99500000
   \<and> g_cycleLength (syncedTiming\<lparr>g_resetTimingCount := 2\<rparr>) = 20000000
   \<and> syncedTiming\<lparr>g_resetTimingCount := 2\<rparr>
     \<noteq> invalidateTiming (syncedTiming\<lparr>g_resetTimingCount := 2\<rparr>)
   \<and> isPlausible 139000000 139000000 (syncedTiming\<lparr>g_resetTimingCount := 2\<rparr>) 119500000
   \<and> newDeadline exampleFrames2duration failJack (atInstant 139000000)
       (syncedTiming\<lparr>g_resetTimingCount := 2\<rparr>)
     = (119500000, syncedTiming\<lparr>g_resetTimingCount := 2, g_previousDeadline := 119500000\<rparr>)"
  by (simp add: newDeadline_def resetTiming_def isPlausible_eq Let_def atInstant_def
      initialTiming_def syncedTiming_def okJack_def failJack_def exampleFrames2duration_def
      invalidateTiming_def JITTER_COMPENSATION_def)

subsection \<open>A regular engine resynchronises once\<close>







end
